theory Spec2Isabelle
  imports Complex_Main
begin

section \<open>Values and the Python built-ins the engine relies on\<close>

text \<open>
  The engine is written in Python; its steps, variables and events are JSON-like values.
  A value of the variable bag is \<open>None\<close>, a boolean, an integer, a string, a list or
  a dictionary with string keys (kept as an association list of distinct keys).
  Floating-point numbers and tuples are not part of this model. A \<open>char\<close> stands for
  one code point below 256.
\<close>

datatype pyval =
    VNone
  | VBool bool
  | VInt int
  | VStr string
  | VList "pyval list"
  | VDict "(string \<times> pyval) list"

datatype py_error = KeyError | IndexError | TypeError | ValueError | ZeroDivisionError

type_synonym bag = "string \<rightharpoonup> pyval"

subsection \<open>\<open>str\<close> and \<open>repr\<close>\<close>

function str_nat :: "nat \<Rightarrow> string" where
  "str_nat n = (if n < 10 then [''0123456789'' ! n]
                else str_nat (n div 10) @ [''0123456789'' ! (n mod 10)])"
  by pat_completeness auto
termination
  by (relation "measure id") auto

declare str_nat.simps [simp del]

definition str_int :: "int \<Rightarrow> string" where
  "str_int i = (if i < 0 then CHR ''-'' # str_nat (nat (- i)) else str_nat (nat i))"

fun join :: "string \<Rightarrow> string list \<Rightarrow> string" where
  "join sep [] = []"
| "join sep [x] = x"
| "join sep (x # y # ys) = x @ sep @ join sep (y # ys)"

text \<open>
  \<open>repr\<close> of a string: single quotes unless the string holds a single quote and no
  double quote; the quote and the backslash are escaped, tab, newline and carriage
  return are written \<open>\t\<close>, \<open>\n\<close>, \<open>\r\<close>, and the other unprintable code points
  below 256 as \<open>\xNN\<close>.
\<close>

definition hex2 :: "nat \<Rightarrow> string" where
  "hex2 n = [''0123456789abcdef'' ! (n div 16), ''0123456789abcdef'' ! (n mod 16)]"

definition unprintable :: "nat \<Rightarrow> bool" where
  "unprintable n = (n < 32 \<or> n = 127 \<or> (128 \<le> n \<and> n \<le> 160) \<or> n = 173)"

definition escape_char :: "char \<Rightarrow> char \<Rightarrow> string" where
  "escape_char q c =
     (let n = (of_char c :: nat) in
      if c = q \<or> n = 92 then [CHR 0x5C, c]
      else if n = 9 then [CHR 0x5C, CHR ''t'']
      else if n = 10 then [CHR 0x5C, CHR ''n'']
      else if n = 13 then [CHR 0x5C, CHR ''r'']
      else if unprintable n then [CHR 0x5C, CHR ''x''] @ hex2 n
      else [c])"

definition repr_str :: "string \<Rightarrow> string" where
  "repr_str s =
     (let q = (if CHR 0x27 \<in> set s \<and> CHR 0x22 \<notin> set s
               then CHR 0x22 else CHR 0x27)
      in [q] @ concat (map (escape_char q) s) @ [q])"

fun py_repr :: "pyval \<Rightarrow> string" where
  "py_repr VNone = ''None''"
| "py_repr (VBool b) = (if b then ''True'' else ''False'')"
| "py_repr (VInt i) = str_int i"
| "py_repr (VStr s) = repr_str s"
| "py_repr (VList xs) = ''['' @ join '', '' (map py_repr xs) @ '']''"
| "py_repr (VDict d) =
     ''{'' @ join '', '' (map (\<lambda>(k, v). repr_str k @ '': '' @ py_repr v) d) @ ''}''"

definition py_str :: "pyval \<Rightarrow> string" where
  "py_str v = (case v of VStr s \<Rightarrow> s | _ \<Rightarrow> py_repr v)"

subsection \<open>\<open>int\<close> of a string\<close>

text \<open>
  \<open>int(s)\<close> in base 10: white space is stripped at both ends, one sign may lead, and
  the digits may be grouped by single underscores. \<open>None\<close> stands for the
  \<open>ValueError\<close>. (The interpreter's limit on the number of digits is left out.)
\<close>

definition is_space :: "char \<Rightarrow> bool" where
  "is_space c = ((of_char c :: nat) \<in> {9, 10, 11, 12, 13, 32, 133, 160})"

definition is_digit :: "char \<Rightarrow> bool" where
  "is_digit c = (48 \<le> (of_char c :: nat) \<and> (of_char c :: nat) \<le> 57)"

definition digit_val :: "char \<Rightarrow> nat" where
  "digit_val c = of_char c - 48"

definition strip :: "string \<Rightarrow> string" where
  "strip s = rev (dropWhile is_space (rev (dropWhile is_space s)))"

fun parse_digits :: "nat \<Rightarrow> string \<Rightarrow> nat option" where
  "parse_digits acc [] = Some acc"
| "parse_digits acc [c] =
     (if is_digit c then Some (10 * acc + digit_val c) else None)"
| "parse_digits acc (c # d # ds) =
     (if is_digit c then parse_digits (10 * acc + digit_val c) (d # ds)
      else if c = CHR ''_'' \<and> is_digit d then parse_digits (10 * acc + digit_val d) ds
      else None)"

definition parse_nat :: "string \<Rightarrow> nat option" where
  "parse_nat s =
     (case s of
        [] \<Rightarrow> None
      | c # cs \<Rightarrow> if is_digit c then parse_digits (digit_val c) cs else None)"

definition py_int :: "string \<Rightarrow> int option" where
  "py_int s =
     (case strip s of
        [] \<Rightarrow> None
      | c # cs \<Rightarrow>
          if c = CHR ''-'' then map_option (\<lambda>n. - int n) (parse_nat cs)
          else if c = CHR ''+'' then map_option int (parse_nat cs)
          else map_option int (parse_nat (c # cs)))"

subsection \<open>Subscription\<close>

text \<open>
  \<open>xs[i]\<close> on a sequence counts a negative index from the end and raises
  \<open>IndexError\<close> out of range. A dictionary with string keys never holds an integer
  key, so an integer subscript raises \<open>KeyError\<close>; the other values are not
  subscriptable with an integer (\<open>TypeError\<close>). A string subscript finds a key of
  a dictionary or raises \<open>KeyError\<close>, and raises \<open>TypeError\<close> on every other value.
\<close>

definition seq_item :: "'a list \<Rightarrow> int \<Rightarrow> py_error + 'a" where
  "seq_item xs i =
     (if 0 \<le> i \<and> i < int (length xs) then Inr (xs ! nat i)
      else if i < 0 \<and> - int (length xs) \<le> i then Inr (xs ! nat (int (length xs) + i))
      else Inl IndexError)"

fun getitem_int :: "pyval \<Rightarrow> int \<Rightarrow> py_error + pyval" where
  "getitem_int (VList xs) i = seq_item xs i"
| "getitem_int (VStr s) i =
     (case seq_item s i of Inl e \<Rightarrow> Inl e | Inr c \<Rightarrow> Inr (VStr [c]))"
| "getitem_int (VDict d) i = Inl KeyError"
| "getitem_int _ i = Inl TypeError"

fun getitem_str :: "pyval \<Rightarrow> string \<Rightarrow> py_error + pyval" where
  "getitem_str (VDict d) k =
     (case map_of d k of Some v \<Rightarrow> Inr v | None \<Rightarrow> Inl KeyError)"
| "getitem_str _ k = Inl TypeError"

section \<open>The variable resolver (\<open>AutomationScript._resolve_value\<close>)\<close>

text \<open>
  \<open>re.split(r'[\.\[]', var_path)\<close>: the path is cut at every dot and every opening
  bracket; empty pieces are kept.
\<close>

fun re_split :: "string \<Rightarrow> string list" where
  "re_split [] = [[]]"
| "re_split (c # cs) =
     (if c = CHR ''.'' \<or> c = CHR ''['' then [] # re_split cs
      else (case re_split cs of
              [] \<Rightarrow> [[c]]
            | p # ps \<Rightarrow> (c # p) # ps))"

text \<open>
  The loop of \<open>replace_var\<close> over \<open>parts[1:]\<close>. \<open>whole\<close> is \<open>match.group(0)\<close>.
  A part that ends with a closing bracket is an index: \<open>ValueError\<close> and
  \<open>IndexError\<close> are caught there. Every other part is a key: \<open>KeyError\<close> and
  \<open>TypeError\<close> are caught there. An exception that is not caught leaves the function.
\<close>

fun walk_parts :: "string \<Rightarrow> pyval \<Rightarrow> string list \<Rightarrow> py_error + string" where
  "walk_parts whole result [] = Inr (py_str result)"
| "walk_parts whole result (part # parts) =
     (if part \<noteq> [] \<and> last part = CHR '']'' then
        (case py_int (butlast part) of
           None \<Rightarrow> Inr whole
         | Some index \<Rightarrow>
             (case getitem_int result index of
                Inr r \<Rightarrow> walk_parts whole r parts
              | Inl e \<Rightarrow> if e = ValueError \<or> e = IndexError then Inr whole else Inl e))
      else
        (case getitem_str result part of
           Inr r \<Rightarrow> walk_parts whole r parts
         | Inl e \<Rightarrow> if e = KeyError \<or> e = TypeError then Inr whole else Inl e))"

definition replace_var :: "bag \<Rightarrow> string \<Rightarrow> py_error + string" where
  "replace_var variables var_path =
     (let whole = ''${'' @ var_path @ ''}'' in
      case re_split var_path of
        [] \<Rightarrow> Inl IndexError
      | var_name # parts \<Rightarrow>
          (case variables var_name of
             None \<Rightarrow> Inr whole
           | Some v \<Rightarrow> walk_parts whole v parts))"

text \<open>
  A match of the pattern \<open>\${([^}]+)}\<close> at the head of a string: the text between
  \<open>${\<close> and the next closing brace, which must not be empty. The result is the
  group and the text after the match.
\<close>

definition match_placeholder :: "string \<Rightarrow> (string \<times> string) option" where
  "match_placeholder s =
     (if take 2 s = ''${'' then
        (let body = takeWhile (\<lambda>c. c \<noteq> CHR ''}'') (drop 2 s);
             rest = dropWhile (\<lambda>c. c \<noteq> CHR ''}'') (drop 2 s)
         in if body \<noteq> [] \<and> rest \<noteq> [] then Some (body, tl rest) else None)
      else None)"

lemma match_placeholder_shorter:
  "match_placeholder s = Some (body, rest) \<Longrightarrow> length rest < length s"
proof -
  assume m: "match_placeholder s = Some (body, rest)"
  let ?d = "dropWhile (\<lambda>c. c \<noteq> CHR ''}'') (drop 2 s)"
  from m have r: "rest = tl ?d" and ne: "?d \<noteq> []"
    by (auto simp: match_placeholder_def Let_def split: if_splits)
  have "length ?d \<le> length (drop 2 s)"
    by (rule length_dropWhile_le)
  moreover from ne have "length (tl ?d) < length ?d"
    by (cases ?d) auto
  ultimately show ?thesis
    using r by simp
qed

text \<open>
  \<open>re.sub(pattern, replace_var, value)\<close>: the matches are found from left to right and
  do not overlap; the replacement text is not scanned again; an exception of
  \<open>replace_var\<close> ends the substitution.
\<close>

function re_sub :: "bag \<Rightarrow> string \<Rightarrow> py_error + string" where
  "re_sub variables [] = Inr []"
| "re_sub variables (c # cs) =
     (case match_placeholder (c # cs) of
        Some (var_path, rest) \<Rightarrow>
          (case replace_var variables var_path of
             Inl e \<Rightarrow> Inl e
           | Inr r \<Rightarrow>
               (case re_sub variables rest of
                  Inl e \<Rightarrow> Inl e
                | Inr out \<Rightarrow> Inr (r @ out)))
      | None \<Rightarrow>
          (case re_sub variables cs of
             Inl e \<Rightarrow> Inl e
           | Inr out \<Rightarrow> Inr (c # out)))"
  by pat_completeness auto
termination
  by (relation "measure (\<lambda>(variables, s). length s)")
     (auto dest: match_placeholder_shorter)

definition resolve_value :: "bag \<Rightarrow> pyval \<Rightarrow> py_error + pyval" where
  "resolve_value variables v =
     (case v of
        VStr s \<Rightarrow> (case re_sub variables s of Inl e \<Rightarrow> Inl e | Inr out \<Rightarrow> Inr (VStr out))
      | _ \<Rightarrow> Inr v)"

section \<open>The step interpreter (\<open>AutomationScript\<close>)\<close>

subsection \<open>Steps, loop frames and the interpreter's state\<close>

text \<open>
  A step is a dictionary in the source. The model keeps the keys the interpreter itself
  reads, each with the type a well-formed script gives it: \<open>None\<close> in an optional
  field means that the key is absent (or \<open>null\<close>, for \<open>next_step\<close> and
  \<open>on_failure\<close>, which the source treats alike). \<open>svalue\<close> is the key \<open>value\<close>,
  \<open>stype\<close> the key \<open>type\<close>. \<open>new_step\<close> fills in the defaults of the source's
  \<open>step.get(key, default)\<close> calls, as \<open>add_step\<close> does for \<open>enabled\<close>.
\<close>

record step =
  stype :: string
  enabled :: bool
  next_step :: "int option"
  on_failure :: "int option"
  condition_type :: string
  then_step :: "int option"
  else_step :: "int option"
  variable :: string
  name :: string
  svalue :: pyval
  loop_id :: "string option"
  loop_type :: string
  count :: pyval
  end_step :: "int option"

definition new_step :: "string \<Rightarrow> step" where
  "new_step t =
     \<lparr>stype = t, enabled = True, next_step = None, on_failure = None,
      condition_type = [], then_step = None, else_step = None,
      variable = [], name = [], svalue = VNone,
      loop_id = None, loop_type = ''count'', count = VInt 1, end_step = None\<rparr>"

text \<open>
  An entry of \<open>loop_counters\<close>: \<open>CountFrame current total start_step\<close> or
  \<open>WhileFrame start_step\<close>. The total is the resolved \<open>count\<close>, whatever value that is.
\<close>

datatype frame = CountFrame int pyval int | WhileFrame int

text \<open>
  The three callbacks are observers: the model records each point where the source
  calls one (if it is set) and takes the call to return normally.
\<close>

datatype callback = StepStart int | StepEnd int bool | ScriptEnd bool

record interp =
  running :: bool
  paused :: bool
  current_step :: int
  variables :: bag
  loop_counters :: "string \<rightharpoonup> frame"
  calls :: "callback list"
  clock :: nat

text \<open>
  The handlers that act on the screen, the input devices, the file system or the event
  player are external collaborators. Each of them catches every exception and returns a
  boolean; some store a result in the bag (\<open>save_to\<close>). The environment gives, for
  the \<open>clock\<close>-th executed step, the outcome of such a handler and of the two screen
  probes that conditions use (a probe may raise).
\<close>

record env =
  act :: "nat \<Rightarrow> step \<Rightarrow> bag \<Rightarrow> bool \<times> bag"
  probe_image :: "nat \<Rightarrow> step \<Rightarrow> py_error + bool"
  probe_text :: "nat \<Rightarrow> step \<Rightarrow> bag \<Rightarrow> py_error + bool"

definition external_types :: "string list" where
  "external_types =
     [''click'', ''double_click'', ''right_click'', ''move'', ''drag'', ''key'', ''text'',
      ''wait'', ''find_image'', ''find_text'', ''play_recording'', ''execute_command'',
      ''screenshot'']"

subsection \<open>Comparisons of values\<close>

text \<open>
  \<open>==\<close> on values: booleans are the integers 0 and 1; lists are equal element by
  element; dictionaries (association lists with distinct keys) are equal when they have
  the same keys with equal values; values of different kinds are unequal.
\<close>

fun py_eq :: "pyval \<Rightarrow> pyval \<Rightarrow> bool" where
  "py_eq VNone VNone = True"
| "py_eq (VBool a) (VBool b) = (a = b)"
| "py_eq (VBool a) (VInt b) = ((if a then 1 else 0) = b)"
| "py_eq (VInt a) (VBool b) = (a = (if b then 1 else 0))"
| "py_eq (VInt a) (VInt b) = (a = b)"
| "py_eq (VStr a) (VStr b) = (a = b)"
| "py_eq (VList xs) (VList ys) = list_all2 py_eq xs ys"
| "py_eq (VDict d) (VDict e) =
     (list_all (\<lambda>(k, v). case map_of e k of None \<Rightarrow> False | Some w \<Rightarrow> py_eq v w) d
      \<and> list_all (\<lambda>(k, w). map_of d k \<noteq> None) e)"
| "py_eq _ _ = False"

fun is_substring :: "string \<Rightarrow> string \<Rightarrow> bool" where
  "is_substring p [] = (p = [])"
| "is_substring p (c # cs) = (take (length p) (c # cs) = p \<or> is_substring p cs)"

text \<open>\<open>current >= total\<close> and \<open>current < total\<close>, with an integer on the left.\<close>

definition num_of :: "pyval \<Rightarrow> py_error + int" where
  "num_of v =
     (case v of
        VInt n \<Rightarrow> Inr n
      | VBool b \<Rightarrow> Inr (if b then 1 else 0)
      | _ \<Rightarrow> Inl TypeError)"

definition int_ge :: "int \<Rightarrow> pyval \<Rightarrow> py_error + bool" where
  "int_ge c v = (case num_of v of Inl e \<Rightarrow> Inl e | Inr n \<Rightarrow> Inr (n \<le> c))"

definition int_lt :: "int \<Rightarrow> pyval \<Rightarrow> py_error + bool" where
  "int_lt c v = (case num_of v of Inl e \<Rightarrow> Inl e | Inr n \<Rightarrow> Inr (c < n))"

subsection \<open>The handlers of the interpreter's own steps\<close>

definition execute_set_variable :: "step \<Rightarrow> interp \<Rightarrow> bool \<times> interp" where
  "execute_set_variable st s =
     (if name st = [] then (False, s)
      else case resolve_value (variables s) (svalue st) of
             Inl e \<Rightarrow> (False, s)
           | Inr v \<Rightarrow> (True, s\<lparr>variables := (variables s)(name st \<mapsto> v)\<rparr>))"

definition check_image_condition :: "env \<Rightarrow> step \<Rightarrow> interp \<Rightarrow> py_error + bool" where
  "check_image_condition E st s = probe_image E (clock s) st"

definition check_text_condition :: "env \<Rightarrow> step \<Rightarrow> interp \<Rightarrow> py_error + bool" where
  "check_text_condition E st s = probe_text E (clock s) st (variables s)"

definition var_get :: "bag \<Rightarrow> string \<Rightarrow> pyval" where
  "var_get b k = (case b k of None \<Rightarrow> VNone | Some v \<Rightarrow> v)"

definition check_variable_equals_condition :: "step \<Rightarrow> interp \<Rightarrow> py_error + bool" where
  "check_variable_equals_condition st s =
     (if variable st = [] \<or> svalue st = VNone then Inr False
      else case resolve_value (variables s) (svalue st) of
             Inl e \<Rightarrow> Inl e
           | Inr compare_value \<Rightarrow> Inr (py_eq (var_get (variables s) (variable st)) compare_value))"

definition check_variable_contains_condition :: "step \<Rightarrow> interp \<Rightarrow> py_error + bool" where
  "check_variable_contains_condition st s =
     (if variable st = [] \<or> svalue st = VNone then Inr False
      else case resolve_value (variables s) (svalue st) of
             Inl e \<Rightarrow> Inl e
           | Inr compare_value \<Rightarrow>
               (case var_get (variables s) (variable st) of
                  VList xs \<Rightarrow> Inr (list_ex (\<lambda>x. py_eq x compare_value) xs)
                | VDict d \<Rightarrow>
                    (case compare_value of
                       VStr k \<Rightarrow> Inr (map_of d k \<noteq> None)
                     | VList ys \<Rightarrow> Inl TypeError
                     | VDict e \<Rightarrow> Inl TypeError
                     | _ \<Rightarrow> Inr False)
                | VStr t \<Rightarrow>
                    (case compare_value of
                       VStr p \<Rightarrow> Inr (is_substring p t)
                     | _ \<Rightarrow> Inl TypeError)
                | _ \<Rightarrow> Inr False))"

text \<open>
  The result of the condition of a \<open>condition\<close> step: \<open>None\<close> when the condition
  type is not one of the four known ones, otherwise what the check returns or raises.
\<close>

definition eval_condition :: "env \<Rightarrow> step \<Rightarrow> interp \<Rightarrow> (py_error + bool) option" where
  "eval_condition E st s =
     (if condition_type st = ''image_exists'' then Some (check_image_condition E st s)
      else if condition_type st = ''text_exists'' then Some (check_text_condition E st s)
      else if condition_type st = ''variable_equals''
        then Some (check_variable_equals_condition st s)
      else if condition_type st = ''variable_contains''
        then Some (check_variable_contains_condition st s)
      else None)"

definition execute_condition :: "env \<Rightarrow> step \<Rightarrow> interp \<Rightarrow> bool \<times> interp" where
  "execute_condition E st s =
     (if condition_type st = [] then (False, s)
      else case eval_condition E st s of
             None \<Rightarrow> (False, s)
           | Some (Inl e) \<Rightarrow> (False, s)
           | Some (Inr result) \<Rightarrow>
               if result then
                 (True, case then_step st of
                          None \<Rightarrow> s
                        | Some t \<Rightarrow> s\<lparr>current_step := t - 1\<rparr>)
               else
                 (True, case else_step st of
                          None \<Rightarrow> s
                        | Some f \<Rightarrow> s\<lparr>current_step := f - 1\<rparr>))"

text \<open>
  \<open>_execute_count_loop\<close> and \<open>_execute_while_loop\<close> may raise; \<open>_execute_loop\<close>
  catches. What was assigned before the exception stays assigned, so each function
  returns the state it reached.
\<close>

definition leave_loop :: "step \<Rightarrow> string \<Rightarrow> interp \<Rightarrow> interp" where
  "leave_loop st lid s =
     (case end_step st of
        None \<Rightarrow> s
      | Some e \<Rightarrow> s\<lparr>current_step := e\<rparr>)\<lparr>loop_counters := (loop_counters s)(lid := None)\<rparr>"

definition execute_count_loop :: "step \<Rightarrow> string \<Rightarrow> interp \<Rightarrow> (py_error + bool) \<times> interp" where
  "execute_count_loop st lid s =
     (case resolve_value (variables s) (count st) of
        Inl e \<Rightarrow> (Inl e, s)
      | Inr resolved \<Rightarrow>
          (let s1 = (if loop_counters s lid = None
                     then s\<lparr>loop_counters :=
                            (loop_counters s)(lid \<mapsto> CountFrame 0 resolved (current_step s))\<rparr>
                     else s)
           in case loop_counters s1 lid of
                None \<Rightarrow> (Inl KeyError, s1)
              | Some (WhileFrame start) \<Rightarrow> (Inl KeyError, s1)
              | Some (CountFrame cur tot start) \<Rightarrow>
                  (case int_ge cur tot of
                     Inl e \<Rightarrow> (Inl e, s1)
                   | Inr finished \<Rightarrow>
                       if finished then (Inr True, leave_loop st lid s1)
                       else (Inr True,
                             s1\<lparr>loop_counters :=
                                  (loop_counters s1)(lid \<mapsto> CountFrame (cur + 1) tot start)\<rparr>))))"

definition execute_while_loop ::
  "env \<Rightarrow> step \<Rightarrow> string \<Rightarrow> interp \<Rightarrow> (py_error + bool) \<times> interp" where
  "execute_while_loop E st lid s =
     (if condition_type st = [] then (Inr False, s)
      else
        (let s1 = (if loop_counters s lid = None
                   then s\<lparr>loop_counters := (loop_counters s)(lid \<mapsto> WhileFrame (current_step s))\<rparr>
                   else s);
             r = (if condition_type st = ''image_exists'' then check_image_condition E st s1
                  else if condition_type st = ''variable_equals''
                    then check_variable_equals_condition st s1
                  else Inr False)
         in case r of
              Inl e \<Rightarrow> (Inl e, s1)
            | Inr result \<Rightarrow>
                if result then (Inr True, s1) else (Inr True, leave_loop st lid s1)))"

definition execute_loop :: "env \<Rightarrow> step \<Rightarrow> interp \<Rightarrow> bool \<times> interp" where
  "execute_loop E st s =
     (let lid = (case loop_id st of
                   None \<Rightarrow> ''loop_'' @ str_int (current_step s)
                 | Some l \<Rightarrow> l);
          r = (if loop_type st = ''count'' then execute_count_loop st lid s
               else if loop_type st = ''while'' then execute_while_loop E st lid s
               else (Inr False, s))
      in case r of
           (Inl e, s') \<Rightarrow> (False, s')
         | (Inr b, s') \<Rightarrow> (b, s'))"

definition execute_end_loop :: "step \<Rightarrow> interp \<Rightarrow> bool \<times> interp" where
  "execute_end_loop st s =
     (case loop_id st of
        None \<Rightarrow> (False, s)
      | Some lid \<Rightarrow>
          if lid = [] then (False, s)
          else (case loop_counters s lid of
                  None \<Rightarrow> (True, s)
                | Some (WhileFrame start) \<Rightarrow> (True, s\<lparr>current_step := start\<rparr>)
                | Some (CountFrame cur tot start) \<Rightarrow>
                    (case int_lt cur tot of
                       Inl e \<Rightarrow> (False, s)
                     | Inr again \<Rightarrow>
                         if again then (True, s\<lparr>current_step := start\<rparr>) else (True, s))))"

definition execute_step :: "env \<Rightarrow> step \<Rightarrow> interp \<Rightarrow> bool \<times> interp" where
  "execute_step E st s =
     (if stype st \<in> set external_types then
        (case act E (clock s) st (variables s) of
           (ok, b) \<Rightarrow> (ok, s\<lparr>variables := b\<rparr>))
      else if stype st = ''condition'' then execute_condition E st s
      else if stype st = ''loop'' then execute_loop E st s
      else if stype st = ''end_loop'' then execute_end_loop st s
      else if stype st = ''set_variable'' then execute_set_variable st s
      else (False, s))"

subsection \<open>The run loop (\<open>run_script\<close>)\<close>

text \<open>
  The assignment after a step: \<open>next_step\<close> on success, \<open>on_failure\<close> on failure,
  the next index otherwise.
\<close>

definition advance :: "step \<Rightarrow> bool \<Rightarrow> interp \<Rightarrow> interp" where
  "advance st success s =
     (case (if success then next_step st else on_failure st) of
        Some target \<Rightarrow> s\<lparr>current_step := target\<rparr>
      | None \<Rightarrow> s\<lparr>current_step := current_step s + 1\<rparr>)"

text \<open>
  One pass through the body of the \<open>while\<close> loop, for a run that is neither stopped
  nor paused. Fetching the step is Python's list subscription, so a negative index
  counts from the end and an index below \<open>-len\<close> raises. The first component is the
  exception that left the body, if any.
\<close>

definition iteration :: "env \<Rightarrow> step list \<Rightarrow> interp \<Rightarrow> py_error option \<times> interp" where
  "iteration E prog s =
     (case seq_item prog (current_step s) of
        Inl e \<Rightarrow> (Some e, s)
      | Inr st \<Rightarrow>
          if \<not> enabled st then (None, s\<lparr>current_step := current_step s + 1\<rparr>)
          else
            (let s1 = s\<lparr>calls := calls s @ [StepStart (current_step s)]\<rparr>
             in case execute_step E st s1 of
                  (success, s2) \<Rightarrow>
                    (None,
                     advance st success
                       (s2\<lparr>calls := calls s2 @ [StepEnd (current_step s2) success],
                           clock := clock s2 + 1\<rparr>))))"

text \<open>
  The \<open>while\<close> loop, with fuel: \<open>None\<close> when the fuel runs out before the loop ends.
  While \<open>paused\<close> is set the source sleeps and looks again; nothing in the loop clears
  the flag, so the model spends fuel and stays where it is.
\<close>

fun run_loop :: "env \<Rightarrow> step list \<Rightarrow> nat \<Rightarrow> interp \<Rightarrow> (py_error option \<times> interp) option" where
  "run_loop E prog 0 s =
     (if running s \<and> current_step s < int (length prog) then None else Some (None, s))"
| "run_loop E prog (Suc n) s =
     (if running s \<and> current_step s < int (length prog) then
        (if paused s then run_loop E prog n s
         else (case iteration E prog s of
                 (Some e, s') \<Rightarrow> Some (Some e, s')
               | (None, s') \<Rightarrow> run_loop E prog n s'))
      else Some (None, s))"

text \<open>
  \<open>run_script(from_step)\<close> returns a boolean. An empty script is refused before
  anything is assigned. Otherwise the flags, the index, the bag and the loop frames are
  reset, the loop runs, \<open>on_script_end\<close> is called and \<open>running\<close> is cleared.
\<close>

definition begin_run :: "int \<Rightarrow> interp \<Rightarrow> interp" where
  "begin_run from_step s =
     s\<lparr>running := True, paused := False, current_step := from_step,
       variables := Map.empty, loop_counters := Map.empty\<rparr>"

definition run_script ::
  "env \<Rightarrow> step list \<Rightarrow> nat \<Rightarrow> int \<Rightarrow> interp \<Rightarrow> (bool \<times> interp) option" where
  "run_script E prog fuel from_step s =
     (if prog = [] then Some (False, s)
      else case run_loop E prog fuel (begin_run from_step s) of
             None \<Rightarrow> None
           | Some (None, s') \<Rightarrow>
               Some (True, s'\<lparr>calls := calls s' @ [ScriptEnd True], running := False\<rparr>)
           | Some (Some e, s') \<Rightarrow>
               Some (False, s'\<lparr>calls := calls s' @ [ScriptEnd False], running := False\<rparr>))"

text \<open>The indices for which \<open>on_step_start\<close> was called, in order.\<close>

fun started :: "callback list \<Rightarrow> int list" where
  "started [] = []"
| "started (StepStart i # cs) = i # started cs"
| "started (c # cs) = started cs"

subsection \<open>Programs and states used to state the properties\<close>

text \<open>
  A step is plain when it is enabled, has neither \<open>next_step\<close> nor \<open>on_failure\<close>,
  and is not a condition, a loop start or a loop end: its jump policy is sequential.
\<close>

definition plain :: "step \<Rightarrow> bool" where
  "plain st =
     (enabled st \<and> next_step st = None \<and> on_failure st = None
      \<and> stype st \<noteq> ''condition'' \<and> stype st \<noteq> ''loop'' \<and> stype st \<noteq> ''end_loop'')"

text \<open>
  The interpreter as \<open>__init__\<close> leaves it, and an environment in which every external
  handler succeeds without touching the bag and every probe finds what it looks for.
\<close>

definition idle :: interp where
  "idle =
     \<lparr>running = False, paused = False, current_step = 0, variables = Map.empty,
      loop_counters = Map.empty, calls = [], clock = 0\<rparr>"

definition quiet_env :: env where
  "quiet_env =
     \<lparr>act = (\<lambda>n st b. (True, b)),
      probe_image = (\<lambda>n st. Inr True),
      probe_text = (\<lambda>n st b. Inr True)\<rparr>"

text \<open>The same environment, except that no probe finds anything.\<close>

definition blind_env :: env where
  "blind_env =
     \<lparr>act = (\<lambda>n st b. (True, b)),
      probe_image = (\<lambda>n st. Inr False),
      probe_text = (\<lambda>n st b. Inr False)\<rparr>"

text \<open>
  A counted loop around one body step: the loop start at index 0 (with \<open>end_step\<close>
  naming the loop end), the body at index 1, the loop end at index 2. \<open>in_body\<close> is
  the situation after the first visit of the loop start: the frame counts 1 of \<open>n\<close>
  and the index is in the body or at the loop end.
\<close>

definition count_program :: "int \<Rightarrow> step \<Rightarrow> step list" where
  "count_program n body =
     [(new_step ''loop'')\<lparr>loop_id := Some ''L'', count := VInt n, end_step := Some 2\<rparr>,
      body,
      (new_step ''end_loop'')\<lparr>loop_id := Some ''L''\<rparr>]"

definition in_body :: "int \<Rightarrow> interp \<Rightarrow> bool" where
  "in_body n s =
     (running s \<and> \<not> paused s \<and> (current_step s = 1 \<or> current_step s = 2)
      \<and> loop_counters s ''L'' = Some (CountFrame 1 (VInt n) 0))"

text \<open>
  A condition step at index 0 that carries \<open>then_step = 1\<close>, \<open>else_step = 2\<close> and
  also \<open>next_step = 3\<close>, followed by three clicks.
\<close>

definition branch_program :: "step list" where
  "branch_program =
     [(new_step ''condition'')\<lparr>condition_type := ''image_exists'', then_step := Some 1,
         else_step := Some 2, next_step := Some 3\<rparr>,
      new_step ''click'', new_step ''click'', new_step ''click'']"

text \<open>
  An interpreter in the middle of a run: it is at index 1, its bag binds \<open>x\<close> and the
  counted loop \<open>L\<close> has a frame.
\<close>

definition busy :: interp where
  "busy =
     \<lparr>running = True, paused = False, current_step = 1, variables = [''x'' \<mapsto> VInt 1],
      loop_counters = [''L'' \<mapsto> CountFrame 1 (VInt 3) 0],
      calls = [StepStart 0, StepEnd 0 True], clock = 1\<rparr>"

section \<open>The event player (\<open>EventPlayer\<close>)\<close>

text \<open>
  An event is a dictionary with a \<open>time\<close> and a \<open>type\<close>; the rest of it is read by
  the input sink only. Times and the speed are rational numbers here: the rounding of
  floating-point division is not modelled.
\<close>

record event =
  etime :: rat
  etype :: string

text \<open>
  What an observer of the player sees: the calls of \<open>time.sleep\<close>, the dispatch of the
  event with a given index (with the boolean \<open>_execute_event\<close> returned), and the
  callbacks. The callbacks are observers and return normally.
\<close>

datatype action =
    Sleep rat
  | Dispatch nat bool
  | OnStart
  | OnStop
  | OnEvent nat bool
  | OnError

text \<open>
  \<open>_playback_loop\<close> runs on a thread of its own. The model cuts it into atomic
  actions, so that the calls of the controlling thread can fall between any two of them:
  \<^item> \<open>AtTop\<close>: the \<open>for\<close> loop takes the next event, or ends; the first test of the
    stop flag;
  \<^item> \<open>Pausing\<close>: one turn of the loop that sleeps 0.1 s while \<open>paused\<close> is set;
  \<^item> \<open>Waiting\<close>: the second test of the stop flag, the computation of \<open>wait_time\<close>
    and the one call \<open>time.sleep(wait_time)\<close>;
  \<^item> \<open>Executing\<close>: \<open>_execute_event\<close>, \<open>on_event\<close> and the update of
    \<open>last_event_time\<close>;
  \<^item> \<open>Finishing\<close>: the \<open>finally\<close> block;
  \<^item> \<open>Exited\<close>: the thread has ended.
  A sleep is one action: a flag set while the thread sleeps is seen by the thread's next
  action, as if it had been set right after the sleep.
\<close>

datatype phase = AtTop | Pausing | Waiting | Executing | Finishing | Exited

record worker =
  idx :: nat
  cur :: event
  last_event_time :: rat
  phase :: phase

record player =
  playing :: bool
  ppaused :: bool
  stop_event :: bool
  events :: "event list"
  speed :: rat
  playback_thread :: "worker option"
  trace :: "action list"

definition set_phase :: "phase \<Rightarrow> worker \<Rightarrow> player \<Rightarrow> player" where
  "set_phase ph w p = p\<lparr>playback_thread := Some (w\<lparr>phase := ph\<rparr>)\<rparr>"

text \<open>
  One action of the playback thread. \<open>fire i e\<close> is what \<open>_execute_event\<close> returns
  for the event \<open>e\<close> at index \<open>i\<close>; it catches every exception. A speed of 0 makes the
  division raise: \<open>on_error\<close> is called and the \<open>finally\<close> block runs.
\<close>

definition worker_step :: "(nat \<Rightarrow> event \<Rightarrow> bool) \<Rightarrow> player \<Rightarrow> player" where
  "worker_step fire p =
     (case playback_thread p of
        None \<Rightarrow> p
      | Some w \<Rightarrow>
          (case phase w of
             AtTop \<Rightarrow>
               if idx w < length (events p) then
                 (if stop_event p then set_phase Finishing (w\<lparr>cur := events p ! idx w\<rparr>) p
                  else set_phase Pausing (w\<lparr>cur := events p ! idx w\<rparr>) p)
               else set_phase Finishing w p
           | Pausing \<Rightarrow>
               if ppaused p \<and> \<not> stop_event p then p\<lparr>trace := trace p @ [Sleep (1 / 10)]\<rparr>
               else set_phase Waiting w p
           | Waiting \<Rightarrow>
               if stop_event p then set_phase Finishing w p
               else if speed p = 0
                 then set_phase Finishing w (p\<lparr>trace := trace p @ [OnError]\<rparr>)
               else
                 (let wait_time = (etime (cur w) - last_event_time w) / speed p
                  in set_phase Executing w
                       (p\<lparr>trace := trace p @ (if 0 < wait_time then [Sleep wait_time] else [])\<rparr>))
           | Executing \<Rightarrow>
               (let success = fire (idx w) (cur w)
                in set_phase AtTop
                     (w\<lparr>idx := idx w + 1, last_event_time := etime (cur w)\<rparr>)
                     (p\<lparr>trace := trace p @ [Dispatch (idx w) success, OnEvent (idx w) success]\<rparr>))
           | Finishing \<Rightarrow>
               set_phase Exited w (p\<lparr>playing := False, trace := trace p @ [OnStop]\<rparr>)
           | Exited \<Rightarrow> p))"

definition alive :: "player \<Rightarrow> bool" where
  "alive p = (case playback_thread p of None \<Rightarrow> False | Some w \<Rightarrow> phase w \<noteq> Exited)"

text \<open>
  \<open>playback_thread.join()\<close>: the caller waits until the thread has ended. With fuel:
  \<open>None\<close> when the thread is still alive after that many actions.
\<close>

fun join_thread :: "(nat \<Rightarrow> event \<Rightarrow> bool) \<Rightarrow> nat \<Rightarrow> player \<Rightarrow> player option" where
  "join_thread fire 0 p = (if alive p then None else Some p)"
| "join_thread fire (Suc n) p =
     (if alive p then join_thread fire n (worker_step fire p) else Some p)"

definition new_worker :: worker where
  "new_worker = \<lparr>idx = 0, cur = \<lparr>etime = 0, etype = []\<rparr>, last_event_time = 0, phase = AtTop\<rparr>"

text \<open>\<open>n\<close> actions of the playback thread, one after the other.\<close>

fun steps :: "(nat \<Rightarrow> event \<Rightarrow> bool) \<Rightarrow> nat \<Rightarrow> player \<Rightarrow> player" where
  "steps fire 0 p = p"
| "steps fire (Suc n) p = steps fire n (worker_step fire p)"

text \<open>
  \<open>start_playback(speed)\<close>: refused while playing and without events. Otherwise the
  speed is stored as given (if one is given), the flags are reset and the thread is
  started: \<open>launch\<close> is the player at that moment. \<open>on_start\<close> is called after the
  thread has been started, so the new thread may already have acted: \<open>k\<close> is the number
  of actions it performs before the controlling thread reaches the call.
\<close>

definition launch :: "rat option \<Rightarrow> player \<Rightarrow> player" where
  "launch sp p =
     p\<lparr>speed := (case sp of None \<Rightarrow> speed p | Some v \<Rightarrow> v),
       playing := True, ppaused := False, stop_event := False,
       playback_thread := Some new_worker\<rparr>"

definition call_back :: "action \<Rightarrow> player \<Rightarrow> player" where
  "call_back a p = p\<lparr>trace := trace p @ [a]\<rparr>"

definition start_playback ::
  "(nat \<Rightarrow> event \<Rightarrow> bool) \<Rightarrow> nat \<Rightarrow> rat option \<Rightarrow> player \<Rightarrow> bool \<times> player" where
  "start_playback fire k sp p =
     (if playing p then (False, p)
      else if events p = [] then (False, p)
      else (True, call_back OnStart (steps fire k (launch sp p))))"

text \<open>
  \<open>stop_playback()\<close>, called from the controlling thread: the stop flag is set,
  \<open>playing\<close> is cleared, the thread is joined if it is alive, and \<open>on_stop\<close> is called.
\<close>

definition stop_playback ::
  "(nat \<Rightarrow> event \<Rightarrow> bool) \<Rightarrow> nat \<Rightarrow> player \<Rightarrow> (bool \<times> player) option" where
  "stop_playback fire fuel p =
     (if \<not> playing p then Some (False, p)
      else
        (let p1 = p\<lparr>stop_event := True, playing := False\<rparr>
         in case (if alive p1
                  then map_option (\<lambda>q. q\<lparr>playback_thread := None\<rparr>) (join_thread fire fuel p1)
                  else Some p1) of
              None \<Rightarrow> None
            | Some p2 \<Rightarrow> Some (True, p2\<lparr>trace := trace p2 @ [OnStop]\<rparr>)))"

definition pause_playback :: "player \<Rightarrow> bool \<times> player" where
  "pause_playback p =
     (if \<not> playing p \<or> ppaused p then (False, p) else (True, p\<lparr>ppaused := True\<rparr>))"

definition resume_playback :: "player \<Rightarrow> bool \<times> player" where
  "resume_playback p =
     (if \<not> playing p \<or> \<not> ppaused p then (False, p) else (True, p\<lparr>ppaused := False\<rparr>))"

text \<open>
  A player as \<open>__init__\<close> leaves it, with a recording of two events loaded (at 0 s and
  at 5 s), and an input sink on which every dispatch succeeds.
\<close>

definition loaded :: player where
  "loaded =
     \<lparr>playing = False, ppaused = False, stop_event = False,
      events = [\<lparr>etime = 0, etype = ''key_press''\<rparr>, \<lparr>etime = 5, etype = ''key_release''\<rparr>],
      speed = 1, playback_thread = None, trace = []\<rparr>"

definition fire_ok :: "nat \<Rightarrow> event \<Rightarrow> bool" where
  "fire_ok i e = True"

text \<open>
  The schedule of a recording, in the words of the specification: before event \<open>i\<close>
  the player waits for the gap to the event before it, divided by the speed, when that
  is positive (\<open>last_event_time\<close> starts at 0, so the gap before the first event is its
  own time); then it dispatches the event and calls \<open>on_event\<close>. \<open>thread_actions\<close> are
  the entries of a trace other than the call of \<open>on_start\<close>, which the controlling
  thread makes.
\<close>

definition prev_time :: "event list \<Rightarrow> nat \<Rightarrow> rat" where
  "prev_time evs i = (if i = 0 then 0 else etime (evs ! (i - 1)))"

definition gap_wait :: "rat \<Rightarrow> event list \<Rightarrow> nat \<Rightarrow> rat" where
  "gap_wait sp evs i = (etime (evs ! i) - prev_time evs i) / sp"

definition event_actions ::
  "(nat \<Rightarrow> event \<Rightarrow> bool) \<Rightarrow> rat \<Rightarrow> event list \<Rightarrow> nat \<Rightarrow> action list" where
  "event_actions fire sp evs i =
     (if 0 < gap_wait sp evs i then [Sleep (gap_wait sp evs i)] else [])
     @ [Dispatch i (fire i (evs ! i)), OnEvent i (fire i (evs ! i))]"

definition thread_actions :: "action list \<Rightarrow> action list" where
  "thread_actions tr = filter (\<lambda>a. a \<noteq> OnStart) tr"

section \<open>The input player (\<open>core.player.InputPlayer\<close>)\<close>

text \<open>
  Of the second player only the part that sets the speed is modelled: the flags, the
  index, the time stamps of the loaded events and the speed.
\<close>

record input_player =
  ip_events :: "rat list"
  ip_playing :: bool
  ip_paused :: bool
  ip_speed :: rat
  ip_current_index :: nat

definition ip_start_playback :: "rat \<Rightarrow> input_player \<Rightarrow> bool \<times> input_player" where
  "ip_start_playback sp p =
     (if ip_playing p then (False, p)
      else if ip_events p = [] then (False, p)
      else (True,
            p\<lparr>ip_playing := True, ip_paused := False, ip_current_index := 0,
              ip_speed := max (1 / 10) (min 10 sp)\<rparr>))"

definition ip_set_speed :: "rat \<Rightarrow> input_player \<Rightarrow> input_player" where
  "ip_set_speed sp p = p\<lparr>ip_speed := max (1 / 10) (min 10 sp)\<rparr>"

section \<open>Properties of the variable resolver\<close>

lemma str_int_5: "str_int 5 = ''5''"
  by (simp add: str_int_def str_nat.simps)

lemma str_int_20: "str_int 20 = ''20''"
  by (simp add: str_int_def str_nat.simps)

text \<open>
  Claim C8. With a bag that binds \<open>a\<close> to the dictionary \<open>{"b": 5}\<close>, resolving
  \<open>${a.b}\<close> gives \<open>5\<close>; with a bag that binds \<open>a\<close> to the list \<open>[10, 20, 30]\<close>,
  resolving \<open>${a[1]}\<close> gives \<open>20\<close>; with a bag that does not bind \<open>missing\<close>,
  resolving \<open>${missing}\<close> gives the text \<open>${missing}\<close> back; and a value that is not a
  string is returned as it is. None of the four raises.
\<close>

theorem resolve_examples:
  "(vars ''a'' = Some (VDict [(''b'', VInt 5)]) \<longrightarrow>
      resolve_value vars (VStr ''${a.b}'') = Inr (VStr ''5''))
   \<and> (vars ''a'' = Some (VList [VInt 10, VInt 20, VInt 30]) \<longrightarrow>
      resolve_value vars (VStr ''${a[1]}'') = Inr (VStr ''20''))
   \<and> (vars ''missing'' = None \<longrightarrow>
      resolve_value vars (VStr ''${missing}'') = Inr (VStr ''${missing}''))
   \<and> ((\<forall>s. v \<noteq> VStr s) \<longrightarrow> resolve_value vars v = Inr v)"
proof (intro conjI impI)
  assume "vars ''a'' = Some (VDict [(''b'', VInt 5)])"
  then show "resolve_value vars (VStr ''${a.b}'') = Inr (VStr ''5'')"
    by (simp add: resolve_value_def match_placeholder_def replace_var_def py_str_def str_int_5)
next
  assume "vars ''a'' = Some (VList [VInt 10, VInt 20, VInt 30])"
  then show "resolve_value vars (VStr ''${a[1]}'') = Inr (VStr ''20'')"
    by (simp add: resolve_value_def match_placeholder_def replace_var_def py_str_def str_int_20
        py_int_def strip_def is_space_def is_digit_def digit_val_def parse_nat_def seq_item_def)
next
  assume "vars ''missing'' = None"
  then show "resolve_value vars (VStr ''${missing}'') = Inr (VStr ''${missing}'')"
    by (simp add: resolve_value_def match_placeholder_def replace_var_def)
next
  assume "\<forall>s. v \<noteq> VStr s"
  then show "resolve_value vars v = Inr v"
    by (cases v) (simp_all add: resolve_value_def)
qed

theorem resolve_examples_witness:
  "resolve_value [''a'' \<mapsto> VDict [(''b'', VInt 5)]] (VStr ''${a.b}'') = Inr (VStr ''5'')
   \<and> resolve_value [''a'' \<mapsto> VList [VInt 10, VInt 20, VInt 30]] (VStr ''${a[1]}'')
       = Inr (VStr ''20'')
   \<and> resolve_value Map.empty (VStr ''${missing}'') = Inr (VStr ''${missing}'')
   \<and> resolve_value Map.empty (VInt 7) = Inr (VInt 7)"
  using resolve_examples [of "[''a'' \<mapsto> VDict [(''b'', VInt 5)]]" "VInt 7"]
        resolve_examples [of "[''a'' \<mapsto> VList [VInt 10, VInt 20, VInt 30]]" "VInt 7"]
        resolve_examples [of Map.empty "VInt 7"]
  by simp

text \<open>
  Claim C6 says that no failure in an accessor chain raises. The index branch of
  \<open>replace_var\<close> catches \<open>ValueError\<close> and \<open>IndexError\<close> only: an index applied to
  an integer raises \<open>TypeError\<close>, an index applied to a dictionary raises
  \<open>KeyError\<close>, and the exception leaves \<open>_resolve_value\<close>, so that the other
  placeholders of the string are not substituted either.
\<close>

theorem resolve_index_raises:
  "resolve_value [''a'' \<mapsto> VInt 5] (VStr ''${a[0]}'') = Inl TypeError
   \<and> resolve_value [''a'' \<mapsto> VDict [(''b'', VInt 5)]] (VStr ''${a[0]}'') = Inl KeyError
   \<and> resolve_value [''a'' \<mapsto> VInt 5, ''b'' \<mapsto> VInt 1] (VStr ''${b} ${a[0]}'')
       = Inl TypeError"
  by code_simp

section \<open>Properties of the step interpreter\<close>

subsection \<open>Sequential programs\<close>

lemma started_append: "started (xs @ ys) = started xs @ started ys"
  by (induction xs rule: started.induct) simp_all

lemma execute_set_variable_frame:
  "execute_set_variable st s = (ok, s') \<Longrightarrow>
     current_step s' = current_step s \<and> running s' = running s \<and> paused s' = paused s
     \<and> calls s' = calls s \<and> loop_counters s' = loop_counters s"
  by (auto simp: execute_set_variable_def split: if_splits sum.splits)

lemma execute_step_plain:
  assumes "stype st \<noteq> ''condition''" "stype st \<noteq> ''loop''" "stype st \<noteq> ''end_loop''"
    and "execute_step E st s = (ok, s')"
  shows "current_step s' = current_step s \<and> running s' = running s \<and> paused s' = paused s
     \<and> calls s' = calls s \<and> loop_counters s' = loop_counters s"
proof (cases "stype st \<in> set external_types")
  case True
  with assms(4) show ?thesis
    by (auto simp: execute_step_def split: prod.splits)
next
  case False
  show ?thesis
  proof (cases "stype st = ''set_variable''")
    case True
    with False assms have "execute_set_variable st s = (ok, s')"
      by (simp add: execute_step_def)
    then show ?thesis by (rule execute_set_variable_frame)
  next
    case no: False
    with False assms have "s' = s" by (simp add: execute_step_def)
    then show ?thesis by simp
  qed
qed






subsection \<open>The empty script\<close>

text \<open>
  Claim C10. \<open>run_script\<close> on a script without steps returns \<open>False\<close> at once, for
  every fuel and every starting index, and the interpreter is left exactly as it was:
  no step is started, \<open>running\<close> is not set and \<open>on_script_end\<close> is not called (the
  list of calls is the one before).
\<close>

theorem run_script_empty: "run_script E [] fuel from_step s = Some (False, s)"
  by (simp add: run_script_def)

subsection \<open>Counted loops\<close>

lemma resolve_value_int: "resolve_value b (VInt n) = Inr (VInt n)"
  by (simp add: resolve_value_def)

lemma first_pass:
  assumes "1 \<le> n" "running s" "\<not> paused s" "current_step s = 0" "loop_counters s ''L'' = None"
  shows "\<exists>s'. iteration E (count_program n body) s = (None, s') \<and> in_body n s'"
  using assms
  by (simp add: iteration_def count_program_def seq_item_def new_step_def execute_step_def
      external_types_def execute_loop_def execute_count_loop_def resolve_value_int
      int_ge_def num_of_def advance_def in_body_def Let_def)

lemma body_pass:
  assumes "plain body" "in_body n s" "current_step s = 1"
  shows "\<exists>s'. iteration E (count_program n body) s = (None, s') \<and> in_body n s'"
proof -
  have it: "seq_item (count_program n body) (current_step s) = Inr body"
    using assms(3) by (simp add: count_program_def seq_item_def)
  let ?s1 = "s\<lparr>calls := calls s @ [StepStart (current_step s)]\<rparr>"
  obtain ok s2 where ex: "execute_step E body ?s1 = (ok, s2)"
    by (cases "execute_step E body ?s1")
  from assms(1) have ty: "stype body \<noteq> ''condition''" "stype body \<noteq> ''loop''"
      "stype body \<noteq> ''end_loop''"
    by (simp_all add: plain_def)
  from execute_step_plain [OF ty ex] assms(1,2,3) it ex show ?thesis
    by (simp add: iteration_def advance_def plain_def in_body_def)
qed

lemma end_pass:
  assumes "2 \<le> n" "in_body n s" "current_step s = 2"
  shows "\<exists>s'. iteration E (count_program n body) s = (None, s') \<and> in_body n s'"
  using assms
  by (simp add: iteration_def count_program_def seq_item_def new_step_def execute_step_def
      external_types_def execute_end_loop_def int_lt_def num_of_def advance_def in_body_def)

lemma in_body_forever:
  assumes "2 \<le> n" "plain body"
  shows "in_body n s \<Longrightarrow> run_loop E (count_program n body) fuel s = None"
proof (induction fuel arbitrary: s)
  case 0
  then show ?case by (auto simp: in_body_def count_program_def)
next
  case (Suc fuel)
  from Suc.prems have "current_step s = 1 \<or> current_step s = 2"
    by (simp add: in_body_def)
  then obtain s' where s': "iteration E (count_program n body) s = (None, s')" "in_body n s'"
    using body_pass [OF assms(2) Suc.prems] end_pass [OF assms(1) Suc.prems] by blast
  have "running s \<and> \<not> paused s \<and> current_step s < int (length (count_program n body))"
    using Suc.prems by (auto simp: in_body_def count_program_def)
  then have "run_loop E (count_program n body) (Suc fuel) s = run_loop E (count_program n body) fuel s'"
    using s'(1) by simp
  with Suc.IH [OF s'(2)] show ?case by simp
qed

text \<open>
  Claim C1 asks that a counted loop with total \<open>n\<close> runs its body \<open>n\<close> times and
  then goes on past the loop end. \<open>_execute_end_loop\<close> assigns \<open>start_step\<close> to the
  index and the run loop then adds 1, so control returns to the first body step and
  never to the loop start: the counter stays at 1. For every total of 2 or more and
  every plain body step the run does not return, whatever the fuel.
\<close>

theorem count_loop_never_ends:
  assumes "2 \<le> n" and "plain body"
  shows "run_script E (count_program n body) fuel 0 s = None"
proof -
  let ?P = "count_program n body"
  let ?s0 = "begin_run 0 s"
  have s0: "running ?s0" "\<not> paused ?s0" "current_step ?s0 = 0" "loop_counters ?s0 ''L'' = None"
    by (simp_all add: begin_run_def)
  have ne: "?P \<noteq> []" by (simp add: count_program_def)
  have "run_loop E ?P fuel ?s0 = None"
  proof (cases fuel)
    case 0
    then show ?thesis using s0 by (simp add: count_program_def)
  next
    case (Suc m)
    from assms(1) have "1 \<le> n" by simp
    from first_pass [OF this s0] obtain s' where
      s': "iteration E ?P ?s0 = (None, s')" "in_body n s'" by blast
    have "run_loop E ?P (Suc m) ?s0 = run_loop E ?P m s'"
      using s0 s'(1) by (simp add: count_program_def)
    with in_body_forever [OF assms s'(2)] Suc show ?thesis by simp
  qed
  with ne show ?thesis by (simp add: run_script_def)
qed

theorem count_loop_never_ends_witness:
  "run_script quiet_env
     (count_program 2 ((new_step ''set_variable'')\<lparr>name := ''x'', svalue := VInt 1\<rparr>)) 1000 0 idle
   = None"
  using count_loop_never_ends
    [of 2 "(new_step ''set_variable'')\<lparr>name := ''x'', svalue := VInt 1\<rparr>" quiet_env 1000 idle]
  by (simp add: plain_def new_step_def)

text \<open>
  With total 0 the body is skipped, and with total 1 it runs once: the run returns and
  has started exactly the steps listed.
\<close>

lemma run_loop_stop:
  "\<not> (running s \<and> current_step s < int (length prog)) \<Longrightarrow> run_loop E prog fuel s = Some (None, s)"
  by (cases fuel) auto

lemma count_loop_zero:
  "\<exists>s'. run_script E (count_program 0 body) (Suc fuel) 0 s = Some (True, s')
      \<and> started (calls s') = started (calls s) @ [0] \<and> current_step s' = 3
      \<and> loop_counters s' ''L'' = None"
  by (simp add: run_script_def begin_run_def iteration_def count_program_def seq_item_def
      new_step_def execute_step_def external_types_def execute_loop_def execute_count_loop_def
      resolve_value_int int_ge_def num_of_def advance_def leave_loop_def Let_def started_append
      run_loop_stop)

lemma count_loop_one:
  assumes "plain body"
  shows "\<exists>s'. run_script E (count_program 1 body) (Suc (Suc (Suc fuel))) 0 s = Some (True, s')
      \<and> started (calls s') = started (calls s) @ [0, 1, 2] \<and> current_step s' = 3"
proof -
  let ?P = "count_program 1 body"
  let ?s0 = "begin_run 0 s"
  have len: "length ?P = 3" by (simp add: count_program_def)
  have "\<exists>s1. iteration E ?P ?s0 = (None, s1) \<and> running s1 \<and> \<not> paused s1 \<and> current_step s1 = 1
      \<and> loop_counters s1 ''L'' = Some (CountFrame 1 (VInt 1) 0)
      \<and> started (calls s1) = started (calls s) @ [0]"
    by (simp add: begin_run_def iteration_def count_program_def seq_item_def
      new_step_def execute_step_def external_types_def execute_loop_def execute_count_loop_def
      resolve_value_int int_ge_def num_of_def advance_def Let_def started_append)
  then obtain s1 where s1: "iteration E ?P ?s0 = (None, s1)" "running s1" "\<not> paused s1"
      "current_step s1 = 1" "loop_counters s1 ''L'' = Some (CountFrame 1 (VInt 1) 0)"
      "started (calls s1) = started (calls s) @ [0]"
    by blast
  have it: "seq_item ?P (current_step s1) = Inr body"
    using s1(4) by (simp add: count_program_def seq_item_def)
  let ?s1' = "s1\<lparr>calls := calls s1 @ [StepStart (current_step s1)]\<rparr>"
  obtain ok s2' where ex: "execute_step E body ?s1' = (ok, s2')"
    by (cases "execute_step E body ?s1'")
  from assms have ty: "stype body \<noteq> ''condition''" "stype body \<noteq> ''loop''"
      "stype body \<noteq> ''end_loop''"
    by (simp_all add: plain_def)
  from execute_step_plain [OF ty ex] assms s1 it ex
  have "\<exists>s2. iteration E ?P s1 = (None, s2) \<and> running s2 \<and> \<not> paused s2 \<and> current_step s2 = 2
      \<and> loop_counters s2 ''L'' = Some (CountFrame 1 (VInt 1) 0)
      \<and> started (calls s2) = started (calls s) @ [0, 1]"
    by (simp add: iteration_def advance_def plain_def started_append)
  then obtain s2 where s2: "iteration E ?P s1 = (None, s2)" "running s2" "\<not> paused s2"
      "current_step s2 = 2" "loop_counters s2 ''L'' = Some (CountFrame 1 (VInt 1) 0)"
      "started (calls s2) = started (calls s) @ [0, 1]"
    by blast
  from s2 have "\<exists>s3. iteration E ?P s2 = (None, s3) \<and> current_step s3 = 3
      \<and> started (calls s3) = started (calls s) @ [0, 1, 2]"
    by (simp add: iteration_def count_program_def seq_item_def new_step_def execute_step_def
      external_types_def execute_end_loop_def int_lt_def num_of_def advance_def started_append)
  then obtain s3 where s3: "iteration E ?P s2 = (None, s3)" "current_step s3 = 3"
      "started (calls s3) = started (calls s) @ [0, 1, 2]"
    by blast
  have "run_loop E ?P (Suc (Suc (Suc fuel))) ?s0 = run_loop E ?P (Suc (Suc fuel)) s1"
    using s1(1) len by (simp add: begin_run_def)
  also have "\<dots> = run_loop E ?P (Suc fuel) s2"
    using s1(2,3,4) s2(1) len by simp
  also have "\<dots> = run_loop E ?P fuel s3"
    using s2(2,3,4) s3(1) len by simp
  also have "\<dots> = Some (None, s3)"
    using s3(2) len by (simp add: run_loop_stop)
  finally have "run_loop E ?P (Suc (Suc (Suc fuel))) ?s0 = Some (None, s3)" .
  moreover have "?P \<noteq> []" by (simp add: count_program_def)
  ultimately show ?thesis
    using s3 by (simp add: run_script_def started_append)
qed

subsection \<open>Condition steps\<close>

lemma eval_condition_calls:
  "eval_condition E st (s\<lparr>calls := c\<rparr>) = eval_condition E st s"
  by (simp add: eval_condition_def check_image_condition_def check_text_condition_def
      check_variable_equals_condition_def check_variable_contains_condition_def
      cong: sum.case_cong)

lemma execute_condition_calls:
  "execute_condition E st s = (ok, s') \<Longrightarrow> calls s' = calls s"
  by (auto simp: execute_condition_def split: if_splits option.splits sum.splits)

lemma execute_count_loop_calls:
  "execute_count_loop st lid s = (r, s') \<Longrightarrow> calls s' = calls s"
  by (auto simp: execute_count_loop_def leave_loop_def Let_def
      split: if_splits option.splits sum.splits frame.splits)

lemma execute_while_loop_calls:
  "execute_while_loop E st lid s = (r, s') \<Longrightarrow> calls s' = calls s"
  by (auto simp: execute_while_loop_def leave_loop_def Let_def
      split: if_splits option.splits sum.splits)

lemma execute_loop_calls:
  "execute_loop E st s = (ok, s') \<Longrightarrow> calls s' = calls s"
  by (auto simp: execute_loop_def Let_def
      dest: execute_count_loop_calls execute_while_loop_calls
      split: if_splits prod.splits sum.splits)

lemma execute_end_loop_calls:
  "execute_end_loop st s = (ok, s') \<Longrightarrow> calls s' = calls s"
  by (auto simp: execute_end_loop_def
      split: if_splits option.splits sum.splits frame.splits)

lemma execute_step_calls:
  "execute_step E st s = (ok, s') \<Longrightarrow> calls s' = calls s"
  by (auto simp: execute_step_def
      dest: execute_condition_calls execute_loop_calls execute_end_loop_calls
        execute_set_variable_frame
      split: if_splits prod.splits)

lemma iteration_starts:
  assumes "seq_item prog (current_step s) = Inr st" and "enabled st"
  shows "\<exists>rest. calls (snd (iteration E prog s)) = calls s @ StepStart (current_step s) # rest"
proof -
  let ?s1 = "s\<lparr>calls := calls s @ [StepStart (current_step s)]\<rparr>"
  obtain ok s2 where ex: "execute_step E st ?s1 = (ok, s2)"
    by (cases "execute_step E st ?s1")
  from execute_step_calls [OF ex] have "calls s2 = calls s @ [StepStart (current_step s)]"
    by simp
  with assms ex show ?thesis
    by (simp add: iteration_def advance_def split: option.splits)
qed

lemma condition_type_known:
  "eval_condition E st s = Some r \<Longrightarrow> condition_type st \<noteq> []"
  by (auto simp: eval_condition_def split: if_splits)

text \<open>
  Without \<open>next_step\<close> the convention works. Take an enabled condition step with
  \<open>then_step = T\<close> and \<open>else_step = F\<close> that carries no \<open>next_step\<close>, and let its
  condition be evaluated to \<open>b\<close> (a known condition type, no exception). Then the pass
  through the run loop leaves the index at \<open>T\<close> when \<open>b\<close> is true and at \<open>F\<close> when it
  is false, whatever \<open>on_failure\<close> holds; and when that index names an enabled step, the
  next pass starts exactly that step.
\<close>

lemma condition_jump:
  assumes "seq_item prog (current_step s) = Inr st"
    and "enabled st" and "stype st = ''condition''"
    and "then_step st = Some T" and "else_step st = Some F"
    and "next_step st = None"
    and "eval_condition E st s = Some (Inr b)"
  shows "\<exists>s'. iteration E prog s = (None, s') \<and> current_step s' = (if b then T else F)
      \<and> (\<forall>st'. seq_item prog (current_step s') = Inr st' \<and> enabled st' \<longrightarrow>
            (\<exists>rest. calls (snd (iteration E prog s'))
                       = calls s' @ StepStart (if b then T else F) # rest))"
proof -
  let ?s1 = "s\<lparr>calls := calls s @ [StepStart (current_step s)]\<rparr>"
  have ev: "eval_condition E st ?s1 = Some (Inr b)"
    using assms(7) by (simp add: eval_condition_calls)
  have ct: "condition_type st \<noteq> []"
    using assms(7) by (rule condition_type_known)
  have ex: "execute_step E st ?s1 = (True, ?s1\<lparr>current_step := (if b then T else F) - 1\<rparr>)"
    using assms(3,4,5) ev ct
    by (simp add: execute_step_def external_types_def execute_condition_def)
  define s' where "s' = advance st True
      (?s1\<lparr>current_step := (if b then T else F) - 1,
            calls := calls ?s1 @ [StepEnd ((if b then T else F) - 1) True],
            clock := clock s + 1\<rparr>)"
  have it: "iteration E prog s = (None, s')"
    using assms(1,2) ex by (simp add: iteration_def s'_def)
  have cs: "current_step s' = (if b then T else F)"
    using assms(6) by (simp add: s'_def advance_def)
  have nx: "\<exists>rest. calls (snd (iteration E prog s')) = calls s' @ StepStart (if b then T else F) # rest"
    if "seq_item prog (current_step s') = Inr st'" "enabled st'" for st'
    using iteration_starts [OF that, of E] cs by simp
  from it cs nx show ?thesis by blast
qed

text \<open>
  Claim C2 asks for the same whatever other jump field the step carries. For every
  enabled condition step with \<open>then_step = T\<close>, \<open>else_step = F\<close> and \<open>next_step = N\<close>
  whose condition is evaluated to \<open>b\<close>, the handler reports success and stores the
  target minus 1, and the run loop then assigns \<open>next_step\<close> over it: the index after
  the step is \<open>N\<close> for either result, and the step started next is \<open>N\<close>.
\<close>

theorem next_step_discards_condition_jump:
  assumes "seq_item prog (current_step s) = Inr st"
    and "enabled st" and "stype st = ''condition''"
    and "then_step st = Some T" and "else_step st = Some F"
    and "next_step st = Some N"
    and "eval_condition E st s = Some (Inr b)"
  shows "execute_step E st s = (True, s\<lparr>current_step := (if b then T else F) - 1\<rparr>)
      \<and> (\<exists>s'. iteration E prog s = (None, s') \<and> current_step s' = N
            \<and> (\<forall>st'. seq_item prog N = Inr st' \<and> enabled st' \<longrightarrow>
                  (\<exists>rest. calls (snd (iteration E prog s')) = calls s' @ StepStart N # rest)))"
proof -
  let ?s1 = "s\<lparr>calls := calls s @ [StepStart (current_step s)]\<rparr>"
  have ct: "condition_type st \<noteq> []"
    using assms(7) by (rule condition_type_known)
  have ex0: "execute_step E st s = (True, s\<lparr>current_step := (if b then T else F) - 1\<rparr>)"
    using assms(3,4,5,7) ct
    by (simp add: execute_step_def external_types_def execute_condition_def)
  have ev: "eval_condition E st ?s1 = Some (Inr b)"
    using assms(7) by (simp add: eval_condition_calls)
  have ex: "execute_step E st ?s1 = (True, ?s1\<lparr>current_step := (if b then T else F) - 1\<rparr>)"
    using assms(3,4,5) ev ct
    by (simp add: execute_step_def external_types_def execute_condition_def)
  define s' where "s' = advance st True
      (?s1\<lparr>current_step := (if b then T else F) - 1,
            calls := calls ?s1 @ [StepEnd ((if b then T else F) - 1) True],
            clock := clock s + 1\<rparr>)"
  have it: "iteration E prog s = (None, s')"
    using assms(1,2) ex by (simp add: iteration_def s'_def)
  have cs: "current_step s' = N"
    using assms(6) by (simp add: s'_def advance_def)
  have nx: "\<exists>rest. calls (snd (iteration E prog s')) = calls s' @ StepStart N # rest"
    if "seq_item prog N = Inr st'" "enabled st'" for st'
    using iteration_starts [of prog s' st' E] that cs by simp
  from ex0 it cs nx show ?thesis by blast
qed

theorem next_step_discards_condition_jump_witness:
  "current_step (snd (iteration quiet_env branch_program (begin_run 0 idle))) = 3
   \<and> current_step (snd (iteration blind_env branch_program (begin_run 0 idle))) = 3
   \<and> execute_step quiet_env (branch_program ! 0) (begin_run 0 idle)
       = (True, (begin_run 0 idle)\<lparr>current_step := 0\<rparr>)
   \<and> map_option (\<lambda>r. started (calls (snd r))) (run_script quiet_env branch_program 5 0 idle)
       = Some [0, 3]"
proof -
  have st: "seq_item branch_program (current_step (begin_run 0 idle)) = Inr (branch_program ! 0)"
      "enabled (branch_program ! 0)" "stype (branch_program ! 0) = ''condition''"
      "then_step (branch_program ! 0) = Some 1" "else_step (branch_program ! 0) = Some 2"
      "next_step (branch_program ! 0) = Some 3"
    by (simp_all add: branch_program_def seq_item_def begin_run_def new_step_def)
  have t: "eval_condition quiet_env (branch_program ! 0) (begin_run 0 idle) = Some (Inr True)"
    and f: "eval_condition blind_env (branch_program ! 0) (begin_run 0 idle) = Some (Inr False)"
    by (simp_all add: branch_program_def eval_condition_def check_image_condition_def
        quiet_env_def blind_env_def new_step_def)
  have run: "map_option (\<lambda>r. started (calls (snd r)))
        (run_script quiet_env branch_program 5 0 idle) = Some [0, 3]"
    by (simp add: branch_program_def eval_condition_def check_image_condition_def quiet_env_def
      begin_run_def idle_def new_step_def iteration_def seq_item_def execute_step_def
      external_types_def execute_condition_def advance_def run_script_def
      eval_nat_numeral started_append)
  from next_step_discards_condition_jump [OF st t]
       next_step_discards_condition_jump [OF st f] run
  show ?thesis by auto
qed

section \<open>Properties of the event player\<close>

subsection \<open>The playback thread, event by event\<close>

lemma steps_numeral: "steps fire (numeral k) p = steps fire (pred_numeral k) (worker_step fire p)"
  by (simp add: numeral_eq_Suc)

lemma steps_add: "steps fire (a + b) p = steps fire b (steps fire a p)"
  by (induction a arbitrary: p) simp_all

lemma launch_fields:
  "events (launch sp p) = events p" "trace (launch sp p) = trace p"
  "\<not> ppaused (launch sp p)" "\<not> stop_event (launch sp p)" "playing (launch sp p)"
  "playback_thread (launch sp p) = Some new_worker"
  by (simp_all add: launch_def)

lemma four_actions:
  assumes "playback_thread q = Some w" and "phase w = AtTop" and "idx w < length (events q)"
    and "\<not> ppaused q" and "\<not> stop_event q" and "speed q \<noteq> 0"
  shows "steps fire 4 q =
     q\<lparr>playback_thread :=
          Some (w\<lparr>idx := idx w + 1, cur := events q ! idx w,
                  last_event_time := etime (events q ! idx w), phase := AtTop\<rparr>),
       trace := trace q
         @ (if 0 < (etime (events q ! idx w) - last_event_time w) / speed q
            then [Sleep ((etime (events q ! idx w) - last_event_time w) / speed q)] else [])
         @ [Dispatch (idx w) (fire (idx w) (events q ! idx w)),
            OnEvent (idx w) (fire (idx w) (events q ! idx w))]\<rparr>"
  using assms
  by (simp add: steps_numeral worker_step_def set_phase_def Let_def)

lemma top_of_iteration:
  assumes "speed (launch sp p) \<noteq> 0"
  shows "i \<le> length (events p) \<Longrightarrow>
     steps fire (4 * i) (launch sp p) =
       (launch sp p)\<lparr>playback_thread :=
           Some \<lparr>idx = i, cur = (if i = 0 then cur new_worker else events p ! (i - 1)),
                 last_event_time = prev_time (events p) i, phase = AtTop\<rparr>,
         trace := trace p
           @ concat (map (event_actions fire (speed (launch sp p)) (events p)) [0..<i])\<rparr>"
proof (induction i)
  case 0
  show ?case by (simp add: launch_def new_worker_def prev_time_def)
next
  case (Suc i)
  let ?L = "launch sp p"
  let ?q = "steps fire (4 * i) ?L"
  let ?w = "\<lparr>idx = i, cur = (if i = 0 then cur new_worker else events p ! (i - 1)),
             last_event_time = prev_time (events p) i, phase = AtTop\<rparr>"
  from Suc have q: "?q = ?L\<lparr>playback_thread := Some ?w,
      trace := trace p @ concat (map (event_actions fire (speed ?L) (events p)) [0..<i])\<rparr>"
    by simp
  have "steps fire (4 * Suc i) ?L = steps fire (4 * i + 4) ?L"
    by (simp add: add.commute)
  also have "\<dots> = steps fire 4 ?q"
    by (rule steps_add)
  also have "\<dots> = ?q\<lparr>playback_thread :=
          Some (?w\<lparr>idx := idx ?w + 1, cur := events ?q ! idx ?w,
                  last_event_time := etime (events ?q ! idx ?w), phase := AtTop\<rparr>),
       trace := trace ?q
         @ (if 0 < (etime (events ?q ! idx ?w) - last_event_time ?w) / speed ?q
            then [Sleep ((etime (events ?q ! idx ?w) - last_event_time ?w) / speed ?q)] else [])
         @ [Dispatch (idx ?w) (fire (idx ?w) (events ?q ! idx ?w)),
            OnEvent (idx ?w) (fire (idx ?w) (events ?q ! idx ?w))]\<rparr>"
    using Suc.prems assms
    by (intro four_actions) (simp_all add: q launch_fields)
  also have "\<dots> = ?L\<lparr>playback_thread :=
           Some \<lparr>idx = Suc i, cur = (if Suc i = 0 then cur new_worker else events p ! (Suc i - 1)),
                 last_event_time = prev_time (events p) (Suc i), phase = AtTop\<rparr>,
         trace := trace p
           @ concat (map (event_actions fire (speed ?L) (events p)) [0..<Suc i])\<rparr>"
    by (simp add: q launch_fields prev_time_def event_actions_def gap_wait_def)
  finally show ?case .
qed


lemma three_actions:
  assumes "playback_thread q = Some w" and "phase w = AtTop" and "idx w < length (events q)"
    and "\<not> ppaused q" and "\<not> stop_event q" and "speed q \<noteq> 0"
  shows "steps fire 3 q =
     q\<lparr>playback_thread := Some (w\<lparr>cur := events q ! idx w, phase := Executing\<rparr>),
       trace := trace q
         @ (if 0 < (etime (events q ! idx w) - last_event_time w) / speed q
            then [Sleep ((etime (events q ! idx w) - last_event_time w) / speed q)] else [])\<rparr>"
  using assms
  by (simp add: steps_numeral worker_step_def set_phase_def Let_def)

lemma in_the_wait:
  assumes "speed (launch sp p) \<noteq> 0" and "i < length (events p)"
  shows "steps fire (4 * i + 3) (launch sp p) =
       (launch sp p)\<lparr>playback_thread :=
           Some \<lparr>idx = i, cur = events p ! i,
                 last_event_time = prev_time (events p) i, phase = Executing\<rparr>,
         trace := trace p
           @ concat (map (event_actions fire (speed (launch sp p)) (events p)) [0..<i])
           @ (if 0 < gap_wait (speed (launch sp p)) (events p) i
              then [Sleep (gap_wait (speed (launch sp p)) (events p) i)] else [])\<rparr>"
proof -
  let ?L = "launch sp p"
  let ?q = "steps fire (4 * i) ?L"
  let ?w = "\<lparr>idx = i, cur = (if i = 0 then cur new_worker else events p ! (i - 1)),
             last_event_time = prev_time (events p) i, phase = AtTop\<rparr>"
  from assms have q: "?q = ?L\<lparr>playback_thread := Some ?w,
      trace := trace p @ concat (map (event_actions fire (speed ?L) (events p)) [0..<i])\<rparr>"
    by (intro top_of_iteration) simp_all
  have "steps fire (4 * i + 3) ?L = steps fire 3 ?q"
    by (rule steps_add)
  also have "\<dots> = ?q\<lparr>playback_thread := Some (?w\<lparr>cur := events ?q ! idx ?w, phase := Executing\<rparr>),
       trace := trace ?q
         @ (if 0 < (etime (events ?q ! idx ?w) - last_event_time ?w) / speed ?q
            then [Sleep ((etime (events ?q ! idx ?w) - last_event_time ?w) / speed ?q)] else [])\<rparr>"
    using assms by (intro three_actions) (simp_all add: q launch_fields)
  finally show ?thesis
    by (simp add: q launch_fields gap_wait_def)
qed

lemma join_thread_exited: "\<not> alive p \<Longrightarrow> join_thread fire n p = Some p"
  by (cases n) simp_all

lemma join_after_stop:
  assumes "playback_thread p = Some w" and "phase w \<noteq> Exited" and "stop_event p"
  shows "\<exists>p'. join_thread fire (Suc (Suc (Suc (Suc n)))) p = Some p' \<and> \<not> alive p'
      \<and> \<not> playing p'
      \<and> count_list (trace p') OnStop = Suc (count_list (trace p) OnStop)"
  using assms
  by (cases "phase w")
     (auto simp add: alive_def worker_step_def set_phase_def Let_def join_thread_exited)

lemma stop_while_executing:
  assumes "playback_thread r = Some w" and "phase w = Executing" and "playing r"
    and "4 \<le> fuel"
  shows "\<exists>r'. stop_playback fire fuel r = Some (True, r')
      \<and> trace r' = trace r @ [Dispatch (idx w) (fire (idx w) (cur w)),
                               OnEvent (idx w) (fire (idx w) (cur w)), OnStop, OnStop]"
proof -
  define n where "n = fuel - 4"
  from assms(4) have n: "fuel = Suc (Suc (Suc (Suc n)))"
    by (simp add: n_def)
  show ?thesis
    using assms(1,2,3)
    by (simp add: n stop_playback_def alive_def worker_step_def set_phase_def Let_def
        join_thread_exited)
qed

subsection \<open>Waiting between events\<close>

text \<open>
  Claim C3, as amended. Let the player be started on a recording, with a speed other
  than 0, and let \<open>i\<close> be an event after the first. When the playback thread has taken
  event \<open>i\<close>, passed the pause poll and waited (its actions \<open>4 i + 1\<close> to \<open>4 i + 3\<close>),
  the trace holds the actions of the events before \<open>i\<close> and then, for the gap
  \<open>d = (t[i] - t[i-1]) / speed\<close>, the one entry \<open>Sleep d\<close> when \<open>d\<close> is positive and
  nothing otherwise: the wait is \<open>max(0, d)\<close>, made as one sleep and not in slices.
  The stop flag is not read between that sleep and the dispatch: \<open>stop_playback\<close>
  called at that point, on a player that differs at most in the trace (the call of
  \<open>on_start\<close> falls somewhere in it), returns only after event \<open>i\<close> has been dispatched.
\<close>

theorem gap_wait_is_one_sleep:
  assumes "0 < i" and "i < length (events p)" and "speed (launch sp p) \<noteq> 0"
    and "d = (etime (events p ! i) - etime (events p ! (i - 1))) / speed (launch sp p)"
    and "r\<lparr>trace := []\<rparr> = (steps fire (4 * i + 3) (launch sp p))\<lparr>trace := []\<rparr>"
    and "4 \<le> fuel"
  shows "trace (steps fire (4 * i + 3) (launch sp p))
       = trace p
         @ concat (map (event_actions fire (speed (launch sp p)) (events p)) [0..<i])
         @ (if 0 < d then [Sleep d] else [])
     \<and> (\<exists>r'. stop_playback fire fuel r = Some (True, r')
           \<and> trace r' = trace r @ [Dispatch i (fire i (events p ! i)),
                                    OnEvent i (fire i (events p ! i)), OnStop, OnStop])"
proof -
  let ?X = "steps fire (4 * i + 3) (launch sp p)"
  let ?w = "\<lparr>idx = i, cur = events p ! i, last_event_time = prev_time (events p) i,
             phase = Executing\<rparr>"
  note X = in_the_wait [OF assms(3,2), of fire]
  have d: "gap_wait (speed (launch sp p)) (events p) i = d"
    using assms(1,4) by (simp add: gap_wait_def prev_time_def)
  have tr: "trace ?X = trace p
         @ concat (map (event_actions fire (speed (launch sp p)) (events p)) [0..<i])
         @ (if 0 < d then [Sleep d] else [])"
    by (simp add: X d)
  have "playback_thread (r\<lparr>trace := []\<rparr>) = playback_thread (?X\<lparr>trace := []\<rparr>)"
       "playing (r\<lparr>trace := []\<rparr>) = playing (?X\<lparr>trace := []\<rparr>)"
    using assms(5) by simp_all
  then have r: "playback_thread r = Some ?w" "playing r"
    by (simp_all add: X launch_fields)
  from stop_while_executing [OF r(1) _ r(2) assms(6), of fire] tr
  show ?thesis by simp
qed

theorem gap_wait_is_one_sleep_witness:
  "trace (steps fire_ok 7 (launch None loaded)) = [Dispatch 0 True, OnEvent 0 True, Sleep 5]
   \<and> (\<exists>r'. stop_playback fire_ok 4
               (steps fire_ok 7 (snd (start_playback fire_ok 0 None loaded))) = Some (True, r')
         \<and> trace r' = [OnStart, Dispatch 0 True, OnEvent 0 True, Sleep 5, Dispatch 1 True,
                        OnEvent 1 True, OnStop, OnStop])"
proof -
  let ?r = "steps fire_ok 7 (snd (start_playback fire_ok 0 None loaded))"
  have same: "?r\<lparr>trace := []\<rparr> = (steps fire_ok (4 * 1 + 3) (launch None loaded))\<lparr>trace := []\<rparr>"
    and tr: "trace ?r = [OnStart, Dispatch 0 True, OnEvent 0 True, Sleep 5]"
    by (simp_all add: steps_numeral start_playback_def call_back_def launch_def loaded_def
        new_worker_def worker_step_def set_phase_def fire_ok_def)
  have ev: "events loaded ! 1 = \<lparr>etime = 5, etype = ''key_release''\<rparr>"
      "events loaded ! (1 - 1) = \<lparr>etime = 0, etype = ''key_press''\<rparr>"
      "length (events loaded) = 2" "speed (launch None loaded) = 1" "trace loaded = []"
    by (simp_all add: loaded_def launch_def)
  from gap_wait_is_one_sleep [of 1 loaded None 5 ?r fire_ok 4, OF _ _ _ _ same] ev tr
  show ?thesis
    by (simp add: event_actions_def gap_wait_def prev_time_def fire_ok_def)
qed

lemma pause_poll_slice:
  assumes "playback_thread p = Some w" and "phase w = Pausing"
    and "ppaused p" and "\<not> stop_event p"
  shows "worker_step fire p = p\<lparr>trace := trace p @ [Sleep (1 / 10)]\<rparr>"
  using assms by (simp add: worker_step_def)

text \<open>
  The claim as stated asks for slices of at most 100 ms. Replaying the two events at
  0 s and 5 s with speed 1 sleeps once, for 5 s.
\<close>

theorem wait_is_not_sliced:
  "map_option trace (join_thread fire_ok 20 (snd (start_playback fire_ok 0 None loaded)))
     = Some [OnStart, Dispatch 0 True, OnEvent 0 True, Sleep 5, Dispatch 1 True,
             OnEvent 1 True, OnStop]
   \<and> \<not> (5 :: rat) \<le> 1 / 10"
  by (simp add: start_playback_def call_back_def launch_def loaded_def new_worker_def alive_def
      worker_step_def set_phase_def fire_ok_def eval_nat_numeral)

subsection \<open>Stopping\<close>

text \<open>
  Claim C4 asks that the stop callback fires exactly once per session. When
  \<open>stop_playback\<close> is called from the controlling thread while the playback thread is
  alive, the joined thread calls \<open>on_stop\<close> in its \<open>finally\<close> block and
  \<open>stop_playback\<close> calls it again: two calls. (\<open>playing\<close> is false afterwards.)
\<close>

theorem stop_fires_on_stop_twice:
  assumes "playing p" and "alive p" and "4 \<le> fuel"
  shows "\<exists>p'. stop_playback fire fuel p = Some (True, p') \<and> \<not> playing p'
      \<and> count_list (trace p') OnStop = count_list (trace p) OnStop + 2"
proof -
  let ?p1 = "p\<lparr>stop_event := True, playing := False\<rparr>"
  from assms(2) obtain w where w: "playback_thread p = Some w" "phase w \<noteq> Exited"
    by (auto simp: alive_def split: option.splits)
  define n where "n = fuel - 4"
  from assms(3) have n: "fuel = Suc (Suc (Suc (Suc n)))"
    by (simp add: n_def)
  have "\<exists>p'. join_thread fire (Suc (Suc (Suc (Suc n)))) ?p1 = Some p' \<and> \<not> alive p'
      \<and> \<not> playing p'
      \<and> count_list (trace p') OnStop = Suc (count_list (trace ?p1) OnStop)"
    using w by (intro join_after_stop) simp_all
  then obtain p2 where p2: "join_thread fire fuel ?p1 = Some p2" "\<not> playing p2"
      "count_list (trace p2) OnStop = Suc (count_list (trace p) OnStop)"
    using n by auto
  have "alive ?p1" using assms(2) by (simp add: alive_def)
  with assms(1) p2 show ?thesis
    by (simp add: stop_playback_def)
qed

theorem stop_fires_on_stop_twice_witness:
  "\<exists>p'. stop_playback fire_ok 4 (steps fire_ok 7 (snd (start_playback fire_ok 0 None loaded)))
          = Some (True, p')
      \<and> \<not> playing p'
      \<and> count_list (trace p') OnStop = 2"
proof -
  let ?p = "steps fire_ok 7 (snd (start_playback fire_ok 0 None loaded))"
  have "playing ?p" "alive ?p" "count_list (trace ?p) OnStop = 0"
    by (simp_all add: steps_numeral start_playback_def call_back_def launch_def loaded_def
        new_worker_def worker_step_def set_phase_def fire_ok_def alive_def)
  with stop_fires_on_stop_twice [of ?p 4 fire_ok] show ?thesis
    by auto
qed

text \<open>
  On the other path the claim holds: a playback that is neither paused nor stopped runs
  through the schedule of its recording to the end, calls \<open>on_stop\<close> once and clears
  \<open>playing\<close>; a later \<open>stop_playback\<close> is refused and calls nothing.
\<close>

lemma join_steps: "join_thread fire n (steps fire k p) = join_thread fire (n + k) p"
proof (induction k arbitrary: p)
  case 0
  show ?case by simp
next
  case (Suc k)
  show ?case
  proof (cases "alive p")
    case True
    then show ?thesis using Suc [of "worker_step fire p"] by simp
  next
    case False
    then have "worker_step fire p = p"
      by (auto simp: alive_def worker_step_def split: option.splits phase.splits)
    with False Suc [of p] show ?thesis
      by (simp add: join_thread_exited)
  qed
qed

lemma natural_completion:
  assumes "speed (launch sp p) \<noteq> 0" and "4 * length (events p) + 2 \<le> fuel"
  shows "\<exists>r. join_thread fire fuel (launch sp p) = Some r \<and> \<not> playing r
      \<and> trace r = trace p
          @ concat (map (event_actions fire (speed (launch sp p)) (events p))
                      [0..<length (events p)])
          @ [OnStop]
      \<and> count_list (trace r) OnStop = Suc (count_list (trace p) OnStop)
      \<and> stop_playback fire fuel r = Some (False, r)"
proof -
  let ?L = "launch sp p"
  let ?n = "length (events p)"
  define m where "m = fuel - (4 * ?n + 2)"
  from assms(2) have fuel: "fuel = Suc (Suc m) + 4 * ?n"
    by (simp add: m_def)
  have q: "steps fire (4 * ?n) ?L =
       ?L\<lparr>playback_thread :=
           Some \<lparr>idx = ?n, cur = (if ?n = 0 then cur new_worker else events p ! (?n - 1)),
                 last_event_time = prev_time (events p) ?n, phase = AtTop\<rparr>,
         trace := trace p
           @ concat (map (event_actions fire (speed ?L) (events p)) [0..<?n])\<rparr>"
    using assms(1) by (intro top_of_iteration) simp_all
  have "join_thread fire fuel ?L = join_thread fire (Suc (Suc m)) (steps fire (4 * ?n) ?L)"
    by (simp add: fuel join_steps)
  also have "\<dots> = Some (?L\<lparr>playing := False,
         playback_thread :=
           Some \<lparr>idx = ?n, cur = (if ?n = 0 then cur new_worker else events p ! (?n - 1)),
                 last_event_time = prev_time (events p) ?n, phase = Exited\<rparr>,
         trace := trace p
           @ concat (map (event_actions fire (speed ?L) (events p)) [0..<?n]) @ [OnStop]\<rparr>)"
    by (simp add: q alive_def worker_step_def set_phase_def launch_fields join_thread_exited)
  finally show ?thesis
    by (simp add: stop_playback_def launch_fields count_list_0_iff event_actions_def)
qed

subsection \<open>The speed\<close>

lemma worker_step_speed: "speed (worker_step fire p) = speed p"
  by (simp add: worker_step_def set_phase_def Let_def split: option.splits phase.splits)

lemma steps_speed: "speed (steps fire k p) = speed p"
  by (induction k arbitrary: p) (simp_all add: worker_step_speed)

lemma start_playback_speed:
  "\<not> playing p \<Longrightarrow> events p \<noteq> [] \<Longrightarrow> speed (snd (start_playback fire k (Some v) p)) = v"
  by (simp add: start_playback_def call_back_def steps_speed launch_def)

lemma worker_step_thread_actions:
  "(worker_step fire p)\<lparr>trace := thread_actions (trace (worker_step fire p))\<rparr>
     = (worker_step fire (p\<lparr>trace := thread_actions (trace p)\<rparr>))
         \<lparr>trace := thread_actions (trace (worker_step fire (p\<lparr>trace := thread_actions (trace p)\<rparr>)))\<rparr>"
  by (simp add: worker_step_def set_phase_def thread_actions_def Let_def
      split: option.splits phase.splits)

lemma join_thread_actions:
  "map_option (\<lambda>q. q\<lparr>trace := thread_actions (trace q)\<rparr>) (join_thread fire n p)
     = map_option (\<lambda>q. q\<lparr>trace := thread_actions (trace q)\<rparr>)
         (join_thread fire n (p\<lparr>trace := thread_actions (trace p)\<rparr>))"
proof (induction n arbitrary: p)
  case 0
  show ?case by (simp add: alive_def thread_actions_def)
next
  case (Suc n)
  let ?N = "\<lambda>q. q\<lparr>trace := thread_actions (trace q)\<rparr>"
  have al: "alive (?N p) = alive p" by (simp add: alive_def)
  show ?case
  proof (cases "alive p")
    case True
    have "map_option ?N (join_thread fire n (worker_step fire p))
        = map_option ?N (join_thread fire n (?N (worker_step fire p)))"
      by (rule Suc)
    also have "\<dots> = map_option ?N (join_thread fire n (?N (worker_step fire (?N p))))"
      by (simp only: worker_step_thread_actions [of fire p])
    also have "\<dots> = map_option ?N (join_thread fire n (worker_step fire (?N p)))"
      by (rule Suc [symmetric])
    finally show ?thesis using True al by simp
  next
    case False
    with al show ?thesis by (simp add: thread_actions_def)
  qed
qed

lemma join_more_fuel: "join_thread fire n p = Some r \<Longrightarrow> join_thread fire (n + j) p = Some r"
proof (induction n arbitrary: p)
  case 0
  then show ?case by (simp add: join_thread_exited split: if_splits)
next
  case (Suc n)
  then show ?case by (simp add: join_thread_exited split: if_splits)
qed

text \<open>
  Claim C7 asks that the speed used for the waits lies in the range from 0.1 to 10.
  \<open>EventPlayer.start_playback\<close> stores the speed it is given: started with speed 20
  the player divides the 5 s between the two events by 20, wherever the call of
  \<open>on_start\<close> falls.
\<close>

theorem event_player_speed_not_clamped:
  "fst (start_playback fire_ok k (Some 20) loaded)
   \<and> speed (snd (start_playback fire_ok k (Some 20) loaded)) = 20
   \<and> \<not> (20 :: rat) \<le> 10
   \<and> map_option (\<lambda>q. thread_actions (trace q))
        (join_thread fire_ok 20 (snd (start_playback fire_ok k (Some 20) loaded)))
       = Some [Dispatch 0 True, OnEvent 0 True, Sleep (1 / 4), Dispatch 1 True,
               OnEvent 1 True, OnStop]
   \<and> map_option trace (join_thread fire_ok 20 (snd (start_playback fire_ok 0 (Some 20) loaded)))
       = Some [OnStart, Dispatch 0 True, OnEvent 0 True, Sleep (1 / 4), Dispatch 1 True,
               OnEvent 1 True, OnStop]"
proof -
  let ?L = "launch (Some 20) loaded"
  let ?N = "\<lambda>q. q\<lparr>trace := thread_actions (trace q)\<rparr>"
  let ?T = "[Dispatch 0 True, OnEvent 0 True, Sleep (1 / 4), Dispatch 1 True,
             OnEvent 1 True, OnStop]"
  have st: "snd (start_playback fire_ok k (Some 20) loaded) = call_back OnStart (steps fire_ok k ?L)"
      "fst (start_playback fire_ok k (Some 20) loaded)"
    by (simp_all add: start_playback_def loaded_def)
  have sp: "speed (call_back OnStart (steps fire_ok k ?L)) = 20"
    by (simp add: call_back_def steps_speed launch_def)
  have "\<exists>r. join_thread fire_ok 20 ?L = Some r \<and> trace r = ?T"
    by (simp add: launch_def loaded_def new_worker_def alive_def
      worker_step_def set_phase_def fire_ok_def eval_nat_numeral)
  then obtain r where r: "join_thread fire_ok 20 ?L = Some r" "trace r = ?T"
    by blast
  have nn: "?N (call_back OnStart (steps fire_ok k ?L)) = ?N (steps fire_ok k ?L)"
    by (simp add: call_back_def thread_actions_def)
  have "map_option ?N (join_thread fire_ok 20 (call_back OnStart (steps fire_ok k ?L)))
      = map_option ?N (join_thread fire_ok 20 (?N (call_back OnStart (steps fire_ok k ?L))))"
    by (rule join_thread_actions)
  also have "\<dots> = map_option ?N (join_thread fire_ok 20 (steps fire_ok k ?L))"
    by (simp only: nn join_thread_actions [symmetric])
  also have "\<dots> = map_option ?N (join_thread fire_ok (20 + k) ?L)"
    by (simp only: join_steps)
  also have "\<dots> = Some (?N r)"
    using join_more_fuel [OF r(1), of k] by simp
  finally have fin: "map_option ?N
        (join_thread fire_ok 20 (call_back OnStart (steps fire_ok k ?L))) = Some (?N r)" .
  have gen: "map_option (\<lambda>q. thread_actions (trace q))
        (join_thread fire_ok 20 (call_back OnStart (steps fire_ok k ?L))) = Some ?T"
  proof (cases "join_thread fire_ok 20 (call_back OnStart (steps fire_ok k ?L))")
    case None
    with fin show ?thesis by simp
  next
    case (Some a)
    with fin have "?N a = ?N r" by simp
    then have "trace (?N a) = trace (?N r)" by (rule arg_cong)
    with Some show ?thesis by (simp add: r(2) thread_actions_def)
  qed
  have k0: "map_option trace (join_thread fire_ok 20 (snd (start_playback fire_ok 0 (Some 20) loaded)))
       = Some (OnStart # ?T)"
    by (simp add: start_playback_def call_back_def launch_def loaded_def new_worker_def alive_def
      worker_step_def set_phase_def fire_ok_def eval_nat_numeral)
  from st sp gen k0 show ?thesis by simp
qed

text \<open>
  \<open>InputPlayer\<close> does clamp: after \<open>set_speed\<close> the speed is in the range, and
  \<open>start_playback\<close> keeps it there.
\<close>

lemma ip_speed_clamped:
  "1 / 10 \<le> ip_speed (ip_set_speed v p) \<and> ip_speed (ip_set_speed v p) \<le> 10
   \<and> (1 / 10 \<le> ip_speed p \<and> ip_speed p \<le> 10 \<longrightarrow>
        1 / 10 \<le> ip_speed (snd (ip_start_playback v p))
        \<and> ip_speed (snd (ip_start_playback v p)) \<le> 10)"
  by (auto simp add: ip_set_speed_def ip_start_playback_def max_def min_def)

section \<open>Starting while a session is active\<close>

lemma start_playback_busy: "playing p \<Longrightarrow> start_playback fire k sp p = (False, p)"
  by (simp add: start_playback_def)

lemma ip_start_playback_busy: "ip_playing p \<Longrightarrow> ip_start_playback sp p = (False, p)"
  by (simp add: ip_start_playback_def)

text \<open>
  Claim C5 asks that a start during an active session is refused and leaves the session
  alone. Both players refuse (\<open>start_playback_busy\<close>, \<open>ip_start_playback_busy\<close>).
  \<open>run_script\<close> has no such test: called on the running interpreter \<open>busy\<close> it
  resets the index, empties the bag and the loop frames, runs the script from index 0
  and returns \<open>True\<close>.
\<close>

theorem run_script_while_running:
  "running busy \<and> current_step busy = 1 \<and> variables busy ''x'' = Some (VInt 1)
   \<and> loop_counters busy ''L'' = Some (CountFrame 1 (VInt 3) 0)
   \<and> current_step (begin_run 0 busy) = 0 \<and> variables (begin_run 0 busy) ''x'' = None
   \<and> loop_counters (begin_run 0 busy) ''L'' = None
   \<and> map_option (\<lambda>r. (fst r, started (calls (snd r)), variables (snd r) ''x''))
        (run_script quiet_env [new_step ''click'', new_step ''wait''] 2 0 busy)
      = Some (True, [0, 0, 1], None)"
  by (simp add: busy_def begin_run_def run_script_def quiet_env_def new_step_def
      iteration_def seq_item_def execute_step_def external_types_def advance_def
      eval_nat_numeral started_append)

end
